theory Spec2Isabelle
  imports Complex_Main "HOL-Library.Word" "HOL-Library.Signed_Division" "HOL-Library.Multiset"
begin

section \<open>tensap.tools.utils: the set helpers\<close>

text \<open>
  The module holds four free functions over NumPy integer arrays. A one-dimensional
  array is a list. \<open>fast_intersect\<close> and \<open>fast_setdiff\<close> only compare and reorder
  their elements, so an element is an \<open>int\<close> there.
\<close>

subsection \<open>The NumPy operations of \<open>fast_intersect\<close> and \<open>fast_setdiff\<close>\<close>

text \<open>\<^verbatim>\<open>np.concatenate((a, b))\<close> for two one-dimensional arrays.\<close>

definition np_concatenate :: "int list \<Rightarrow> int list \<Rightarrow> int list" where
  "np_concatenate a b = a @ b"

text \<open>\<^verbatim>\<open>aux.sort()\<close> sorts in place, ascending; the model returns the sorted array.\<close>

definition np_sort :: "int list \<Rightarrow> int list" where
  "np_sort aux = sort aux"

text \<open>
  The slices \<^verbatim>\<open>aux[1:]\<close> and \<^verbatim>\<open>aux[:-1]\<close>. Both are empty on an empty array, and
  have the same length on every array.
\<close>

definition slice_from1 :: "'a list \<Rightarrow> 'a list" where
  "slice_from1 aux = drop 1 aux"

definition slice_to_last :: "'a list \<Rightarrow> 'a list" where
  "slice_to_last aux = take (length aux - 1) aux"

text \<open>Element-wise \<^verbatim>\<open>==\<close> of two arrays of one length.\<close>

definition np_equal :: "int list \<Rightarrow> int list \<Rightarrow> bool list" where
  "np_equal xs ys = map2 (=) xs ys"

text \<open>
  Indexing with a boolean mask of the array's length, \<^verbatim>\<open>arr[mask]\<close>: the elements
  whose mask entry is true, in their order.
\<close>

definition bool_index :: "'a list \<Rightarrow> bool list \<Rightarrow> 'a list" where
  "bool_index arr msk = map fst (filter snd (zip arr msk))"

text \<open>
  \<^verbatim>\<open>np.isin(a, b, assume_unique=True)\<close>: for each element of \<open>a\<close>, whether it occurs
  in \<open>b\<close>. With \<^verbatim>\<open>assume_unique=True\<close> NumPy skips its own removal of duplicates, so
  this is sure to be the result only for arrays that are each free of duplicates;
  every statement below about \<open>fast_setdiff\<close> has that precondition.
\<close>

definition np_isin :: "int list \<Rightarrow> int list \<Rightarrow> bool list" where
  "np_isin a b = map (\<lambda>x. x \<in> set b) a"

text \<open>
  NumPy computes the mask by one of several algorithms, chosen from the sizes of the
  arrays. Only the sort-based one reads \<^verbatim>\<open>assume_unique\<close>; with the flag set it is
  \<^verbatim>\<open>
  ar = np.concatenate((ar1, ar2))
  order = ar.argsort(kind='mergesort')
  sar = ar[order]
  bool_ar = (sar[1:] == sar[:-1])
  flag = np.concatenate((bool_ar, [False]))
  ret = np.empty(ar.shape, dtype=bool)
  ret[order] = flag
  return ret[:len(ar1)]
  \<close>
  It is modelled as \<open>in1d_sort\<close>, and \<open>in1d_sort_distinct\<close> below shows that it
  returns \<open>np_isin\<close> whenever the first array is free of duplicates.
\<close>

text \<open>\<^verbatim>\<open>ar.argsort(kind='mergesort')\<close>: the indices of \<open>ar\<close> in a stable ascending order.\<close>

definition np_argsort :: "int list \<Rightarrow> nat list" where
  "np_argsort ar = sort_key (\<lambda>j. ar ! j) [0..<length ar]"

text \<open>\<^verbatim>\<open>ar[order]\<close> for an array of valid indices.\<close>

definition np_take :: "int list \<Rightarrow> nat list \<Rightarrow> int list" where
  "np_take ar order = map (\<lambda>j. ar ! j) order"

text \<open>\<^verbatim>\<open>ret[order] = flag\<close>, one assignment after the other.\<close>

definition np_put :: "bool list \<Rightarrow> nat list \<Rightarrow> bool list \<Rightarrow> bool list" where
  "np_put ret order flag = fold (\<lambda>(j, f) r. r[j := f]) (zip order flag) ret"

definition in1d_sort :: "int list \<Rightarrow> int list \<Rightarrow> bool list" where
  "in1d_sort ar1 ar2 =
     (let ar = np_concatenate ar1 ar2;
          order = np_argsort ar;
          sar = np_take ar order;
          bool_ar = np_equal (slice_from1 sar) (slice_to_last sar);
          flag = bool_ar @ [False];
          ret = np_put (replicate (length ar) False) order flag
      in take (length ar1) ret)"

definition np_logical_not :: "bool list \<Rightarrow> bool list" where
  "np_logical_not msk = map Not msk"

subsection \<open>\<open>fast_intersect\<close> and \<open>fast_setdiff\<close>\<close>

text \<open>
  \<^verbatim>\<open>
  def fast_intersect(a, b):
      aux = np.concatenate((a, b))
      aux.sort()
      mask = aux[1:] == aux[:-1]
      return aux[:-1][mask]
  \<close>
\<close>

definition fast_intersect :: "int list \<Rightarrow> int list \<Rightarrow> int list" where
  "fast_intersect a b =
     (let aux = np_sort (np_concatenate a b);
          msk = np_equal (slice_from1 aux) (slice_to_last aux)
      in bool_index (slice_to_last aux) msk)"

text \<open>
  \<^verbatim>\<open>
  def fast_setdiff(a, b):
      return a[np.logical_not(np.isin(a, b, assume_unique=True))]
  \<close>
\<close>

definition fast_setdiff :: "int list \<Rightarrow> int list \<Rightarrow> int list" where
  "fast_setdiff a b = bool_index a (np_logical_not (np_isin a b))"

section \<open>tensap.tools.utils: conversion between integers and base-b digits\<close>

text \<open>
  \<open>integer2baseb\<close> and \<open>baseb2integer\<close> hand their arguments to
  \<^verbatim>\<open>np.unravel_index\<close> and \<^verbatim>\<open>np.ravel_multi_index\<close>, which compute on
  \<^verbatim>\<open>npy_intp\<close>, a signed 64-bit integer on the 64-bit platforms modelled here.
  An element of an integer array, and the base \<open>b\<close> that \<^verbatim>\<open>np.full(d, b)\<close>
  stores in one, is therefore an \<open>int64\<close>, read with \<open>sint\<close>. The dimension
  \<open>d\<close> is a Python \<^verbatim>\<open>int\<close> or \<^verbatim>\<open>None\<close>.
\<close>

type_synonym int64 = "64 word"

text \<open>The exceptions the two functions can raise.\<close>

datatype error = ValueError | OverflowError

text \<open>
  A two-dimensional array: its shape and its elements by row and column.
  \<^verbatim>\<open>np.transpose\<close> and \<^verbatim>\<open>np.fliplr\<close> are views that only change how an
  index is read, and are modelled so. \<open>rows_of\<close> lists the rows.
\<close>

record ndarray2 =
  shape0 :: nat
  shape1 :: nat
  item :: "nat \<Rightarrow> nat \<Rightarrow> int64"

definition rows_of :: "ndarray2 \<Rightarrow> int64 list list" where
  "rows_of A = map (\<lambda>r. map (\<lambda>c. item A r c) [0..<shape1 A]) [0..<shape0 A]"

text \<open>
  The array with the given rows, each of length \<open>ncols\<close>: how a nested Python list
  \<^verbatim>\<open>[[1, 0, 1], ...]\<close> is read.
\<close>

definition of_rows :: "nat \<Rightarrow> int64 list list \<Rightarrow> ndarray2" where
  "of_rows ncols rws = \<lparr>shape0 = length rws, shape1 = ncols, item = (\<lambda>r c. rws ! r ! c)\<rparr>"

definition np_transpose :: "ndarray2 \<Rightarrow> ndarray2" where
  "np_transpose A = \<lparr>shape0 = shape1 A, shape1 = shape0 A, item = (\<lambda>r c. item A c r)\<rparr>"

definition np_fliplr :: "ndarray2 \<Rightarrow> ndarray2" where
  "np_fliplr A = A\<lparr>item := (\<lambda>r c. item A r (shape1 A - 1 - c))\<rparr>"

text \<open>
  \<^verbatim>\<open>np.array(I0)\<close> for a non-empty tuple of one-dimensional arrays of one length:
  the arrays become the rows.
\<close>

definition np_array :: "int64 list list \<Rightarrow> ndarray2" where
  "np_array I0 = \<lparr>shape0 = length I0, shape1 = length (hd I0), item = (\<lambda>r c. I0 ! r ! c)\<rparr>"

text \<open>
  The argument of \<open>baseb2integer\<close> is a list of digits (one row) or a digit matrix;
  \<^verbatim>\<open>np.atleast_2d\<close> turns the first into a matrix of one row.
\<close>

datatype array_like = Array1 "int64 list" | Array2 ndarray2

fun np_atleast_2d :: "array_like \<Rightarrow> ndarray2" where
  "np_atleast_2d (Array1 xs) = \<lparr>shape0 = 1, shape1 = length xs, item = (\<lambda>r c. xs ! c)\<rparr>"
| "np_atleast_2d (Array2 A) = A"

subsection \<open>Limits of NumPy\<close>

text \<open>
  The constants of NumPy 1.x, the series the module was written against, on a 64-bit
  platform. (NumPy 2 raises \<^verbatim>\<open>NPY_MAXDIMS\<close> and \<^verbatim>\<open>NPY_MAXARGS\<close> to 64.)
\<close>

definition NPY_MAXDIMS :: nat where
  "NPY_MAXDIMS = 32"

definition NPY_MAXARGS :: nat where
  "NPY_MAXARGS = 32"

definition NPY_MAX_INTP :: int where
  "NPY_MAX_INTP = 2 ^ 63 - 1"

definition NPY_MIN_INTP :: int where
  "NPY_MIN_INTP = - (2 ^ 63)"

text \<open>\<^verbatim>\<open>npy_mul_sizes_with_overflow\<close>: whether the product leaves \<^verbatim>\<open>npy_intp\<close>.\<close>

definition mul_overflow :: "int \<Rightarrow> int \<Rightarrow> bool" where
  "mul_overflow a b = (a * b < NPY_MIN_INTP \<or> NPY_MAX_INTP < a * b)"

text \<open>
  \<^verbatim>\<open>PyArray_IntpConverter\<close> reads a shape argument: more than \<^verbatim>\<open>NPY_MAXDIMS\<close>
  entries are a \<^verbatim>\<open>ValueError\<close>.
\<close>

definition intp_converter :: "int64 list \<Rightarrow> error + int list" where
  "intp_converter shape =
     (if NPY_MAXDIMS < length shape then Inl ValueError else Inr (map sint shape))"

text \<open>
  \<^verbatim>\<open>PyArray_OverflowMultiplyList\<close>: the product of the dimensions, 0 as soon as one
  is 0, and -1 when a product overflows.
\<close>

fun overflow_multiply_list :: "int \<Rightarrow> int list \<Rightarrow> int" where
  "overflow_multiply_list prd [] = prd"
| "overflow_multiply_list prd (m # l1) =
     (if m = 0 then 0
      else if mul_overflow prd m then - 1
      else overflow_multiply_list (prd * m) l1)"

subsection \<open>\<^verbatim>\<open>np.full\<close>, \<^verbatim>\<open>np.unravel_index\<close> and \<^verbatim>\<open>np.ravel_multi_index\<close>\<close>

text \<open>
  \<^verbatim>\<open>np.full(d, b)\<close>: \<open>d\<close> copies of \<open>b\<close>; a negative length is a \<^verbatim>\<open>ValueError\<close>.
  (Running out of memory for a huge \<open>d\<close> is not modelled.)
\<close>

definition np_full :: "int \<Rightarrow> int64 \<Rightarrow> error + int64 list" where
  "np_full d b = (if d < 0 then Inl ValueError else Inr (replicate (nat d) b))"

text \<open>
  The inner loop of \<^verbatim>\<open>unravel_index_loop\<close> in order \<^verbatim>\<open>"F"\<close>, first axis first:
  \<^verbatim>\<open>tmp = val / dims[idx]; coords[idx] = val % dims[idx]; val = tmp\<close>, with C's
  truncating division.
\<close>

fun unravel_coords :: "int \<Rightarrow> int list \<Rightarrow> int list" where
  "unravel_coords v [] = []"
| "unravel_coords v (m # dims) = (v smod m) # unravel_coords (v sdiv m) dims"

text \<open>
  \<^verbatim>\<open>np.unravel_index(indices, shape, order="F")\<close> for a one-dimensional integer
  array of indices. It raises \<^verbatim>\<open>ValueError\<close> when the size of the shape overflows,
  when an index is negative or not below the size, and when the shape is empty (an
  array of indices cannot address a 0-d array). The result is the tuple of coordinate
  arrays, one per axis.
\<close>

definition unravel_index :: "int64 list \<Rightarrow> int64 list \<Rightarrow> error + int64 list list" where
  "unravel_index indices shape =
     (case intp_converter shape of
        Inl e \<Rightarrow> Inl e
      | Inr dims \<Rightarrow>
          (let unravel_size = overflow_multiply_list 1 dims in
           if unravel_size = - 1 then Inl ValueError
           else if \<exists>v\<in>set indices. sint v < 0 \<or> unravel_size \<le> sint v then Inl ValueError
           else if dims = [] then Inl ValueError
           else Inr (map (\<lambda>k. map (\<lambda>v. word_of_int (unravel_coords (sint v) dims ! k)) indices)
                       [0..<length dims])))"

text \<open>
  The strides of \<^verbatim>\<open>np.ravel_multi_index\<close> in order \<^verbatim>\<open>"F"\<close>:
  \<^verbatim>\<open>s = 1; for each axis: ravel_strides[i] = s; s *= dims[i]\<close>, \<open>None\<close> when the
  multiplication overflows.
\<close>

fun ravel_strides :: "int \<Rightarrow> int list \<Rightarrow> int list option" where
  "ravel_strides s [] = Some []"
| "ravel_strides s (m # dims) =
     (if mul_overflow s m then None
      else map_option ((#) s) (ravel_strides (s * m) dims))"

text \<open>
  The inner loop of \<^verbatim>\<open>ravel_multi_index_loop\<close> in mode \<^verbatim>\<open>"raise"\<close>, over the
  triples of coordinate, dimension and stride of one element: \<open>None\<close> when a
  coordinate is negative or not below its dimension.
\<close>

fun ravel_loop :: "int \<Rightarrow> (int \<times> int \<times> int) list \<Rightarrow> int option" where
  "ravel_loop raveled [] = Some raveled"
| "ravel_loop raveled ((j, m, s) # rest) =
     (if j < 0 \<or> m \<le> j then None else ravel_loop (raveled + j * s) rest)"

text \<open>The flat index of column \<open>k\<close> of the coordinate array, or \<open>None\<close>.\<close>

definition ravel_column :: "ndarray2 \<Rightarrow> int list \<Rightarrow> int list \<Rightarrow> nat \<Rightarrow> int option" where
  "ravel_column multi_index dims strides k =
     ravel_loop 0 (zip (map (\<lambda>i. sint (item multi_index i k)) [0..<length dims]) (zip dims strides))"

text \<open>
  \<^verbatim>\<open>np.ravel_multi_index(multi_index, dims, order="F")\<close> for a two-dimensional
  integer array, whose rows are the coordinate arrays. It raises \<^verbatim>\<open>ValueError\<close>
  for \<^verbatim>\<open>NPY_MAXARGS\<close> dimensions or more, when the size of \<open>dims\<close> overflows, when
  the number of coordinate arrays is not the number of dimensions, when there is no
  dimension at all (NumPy's iterator has no coordinate array to run over), and when
  a coordinate is out of range.
\<close>

definition ravel_multi_index :: "ndarray2 \<Rightarrow> int64 list \<Rightarrow> error + int64 list" where
  "ravel_multi_index multi_index shape =
     (case intp_converter shape of
        Inl e \<Rightarrow> Inl e
      | Inr dims \<Rightarrow>
          if NPY_MAXARGS < length dims + 1 then Inl ValueError
          else (case ravel_strides 1 dims of
                  None \<Rightarrow> Inl ValueError
                | Some strides \<Rightarrow>
                    if shape0 multi_index \<noteq> length dims then Inl ValueError
                    else if dims = [] then Inl ValueError
                    else (case those (map (ravel_column multi_index dims strides)
                                       [0..<shape1 multi_index]) of
                            None \<Rightarrow> Inl ValueError
                          | Some raveled \<Rightarrow> Inr (map word_of_int raveled))))"

subsection \<open>The default dimension\<close>

text \<open>
  \<^verbatim>\<open>d = int(np.ceil(np.log(np.max(i) + 1) / np.log(b)))\<close> is computed in float64.
  The model keeps the special values of float64 and computes the finite ones in exact
  real arithmetic: rounding is not modelled, so this part of the model says what the
  code does only where rounding cannot change the result.
\<close>

datatype npfloat = Finite real | PosInf | NegInf | NaN

text \<open>\<^verbatim>\<open>np.max(i)\<close> of a non-empty array, in the signed order.\<close>

definition np_max :: "int64 list \<Rightarrow> int64" where
  "np_max i = fold (\<lambda>x m. if sint m < sint x then x else m) (tl i) (hd i)"

text \<open>\<^verbatim>\<open>np.log\<close> of an integer: \<^verbatim>\<open>-inf\<close> at 0 and \<^verbatim>\<open>nan\<close> below.\<close>

definition np_log :: "int \<Rightarrow> npfloat" where
  "np_log x = (if 0 < x then Finite (ln (real_of_int x)) else if x = 0 then NegInf else NaN)"

text \<open>
  Division of float64 values. A finite divisor 0 is \<^verbatim>\<open>+0.0\<close> here (the logarithm
  of 1), and a quotient by an infinity is a zero.
\<close>

fun np_divide :: "npfloat \<Rightarrow> npfloat \<Rightarrow> npfloat" where
  "np_divide NaN y = NaN"
| "np_divide x NaN = NaN"
| "np_divide (Finite x) (Finite y) =
     (if y = 0 then (if x = 0 then NaN else if 0 < x then PosInf else NegInf)
      else Finite (x / y))"
| "np_divide (Finite x) y = Finite 0"
| "np_divide PosInf (Finite y) = (if 0 \<le> y then PosInf else NegInf)"
| "np_divide NegInf (Finite y) = (if 0 \<le> y then NegInf else PosInf)"
| "np_divide x y = NaN"

fun np_ceil :: "npfloat \<Rightarrow> npfloat" where
  "np_ceil (Finite x) = Finite (of_int \<lceil>x\<rceil>)"
| "np_ceil x = x"

text \<open>
  Python's \<^verbatim>\<open>int\<close> of a float truncates; it raises \<^verbatim>\<open>OverflowError\<close> on an
  infinity and \<^verbatim>\<open>ValueError\<close> on \<^verbatim>\<open>nan\<close>.
\<close>

fun py_int :: "npfloat \<Rightarrow> error + int" where
  "py_int (Finite x) = Inr (if 0 \<le> x then \<lfloor>x\<rfloor> else \<lceil>x\<rceil>)"
| "py_int NaN = Inl ValueError"
| "py_int x = Inl OverflowError"

text \<open>
  The default of \<open>d\<close>. \<^verbatim>\<open>np.max\<close> of an empty array is a \<^verbatim>\<open>ValueError\<close>;
  \<^verbatim>\<open>np.max(i) + 1\<close> is an addition of int64 and wraps around.
\<close>

definition derive_d :: "int64 list \<Rightarrow> int64 \<Rightarrow> error + int" where
  "derive_d i b =
     (if i = [] then Inl ValueError
      else py_int (np_ceil (np_divide (np_log (sint (np_max i + 1))) (np_log (sint b)))))"

subsection \<open>\<open>integer2baseb\<close> and \<open>baseb2integer\<close>\<close>

text \<open>
  \<^verbatim>\<open>
  def integer2baseb(i, b, d=None):
      if d is None:
          d = int(np.ceil(np.log(np.max(i) + 1) / np.log(b)))
      I0 = np.unravel_index(np.ravel(i), np.full(d, b), order="F")
      return np.fliplr(np.transpose(np.array(I0)))
  \<close>
  The argument \<open>i\<close> is the integer array \<^verbatim>\<open>np.ravel(i)\<close>. An empty tuple \<open>I0\<close>
  would make \<^verbatim>\<open>np.array(I0)\<close> one-dimensional, which \<^verbatim>\<open>np.fliplr\<close> rejects.
\<close>

definition integer2baseb :: "int64 list \<Rightarrow> int64 \<Rightarrow> int option \<Rightarrow> error + ndarray2" where
  "integer2baseb i b d =
     (case (case d of None \<Rightarrow> derive_d i b | Some d' \<Rightarrow> Inr d') of
        Inl e \<Rightarrow> Inl e
      | Inr d' \<Rightarrow>
          (case np_full d' b of
             Inl e \<Rightarrow> Inl e
           | Inr shape \<Rightarrow>
               (case unravel_index i shape of
                  Inl e \<Rightarrow> Inl e
                | Inr I0 \<Rightarrow>
                    if I0 = [] then Inl ValueError
                    else Inr (np_fliplr (np_transpose (np_array I0))))))"

text \<open>
  \<^verbatim>\<open>
  def baseb2integer(I0, b):
      values = np.atleast_2d(I0)
      d = values.shape[1]
      values = np.fliplr(values)
      values = np.transpose(values)
      return np.ravel_multi_index(values, np.full(d, b), order="F")
  \<close>
\<close>

definition baseb2integer :: "array_like \<Rightarrow> int64 \<Rightarrow> error + int64 list" where
  "baseb2integer I0 b =
     (let values0 = np_atleast_2d I0;
          d = shape1 values0;
          values1 = np_fliplr values0;
          values2 = np_transpose values1
      in case np_full (int d) b of
           Inl e \<Rightarrow> Inl e
         | Inr shape \<Rightarrow> ravel_multi_index values2 shape)"

section \<open>Auxiliary definitions for the proofs\<close>

text \<open>
  The scan of \<open>fast_intersect\<close> keeps an element exactly when its successor equals it.
  \<open>adjacent_dups\<close> is that scan written as a recursion.
\<close>

fun adjacent_dups :: "int list \<Rightarrow> int list" where
  "adjacent_dups (x # y # xs) =
     (if y = x then x # adjacent_dups (y # xs) else adjacent_dups (y # xs))"
| "adjacent_dups xs = []"

text \<open>
  The matrix \<open>integer2baseb\<close> returns for \<open>d\<close> digits in base \<open>b\<close>, when it
  returns one.
\<close>

definition digit_matrix :: "int64 list \<Rightarrow> int64 \<Rightarrow> nat \<Rightarrow> ndarray2" where
  "digit_matrix i b d =
     np_fliplr (np_transpose (np_array
       (map (\<lambda>k. map (\<lambda>v. word_of_int (unravel_coords (sint v) (replicate d (sint b)) ! k)) i) [0..<d])))"

section \<open>Properties of the set helpers\<close>

lemma scan_is_adjacent_dups:
  "bool_index (slice_to_last xs) (np_equal (slice_from1 xs) (slice_to_last xs)) = adjacent_dups xs"
  by (induction xs rule: adjacent_dups.induct)
     (simp_all add: bool_index_def slice_to_last_def slice_from1_def np_equal_def)

lemma fast_intersect_adjacent_dups:
  "fast_intersect a b = adjacent_dups (sort (a @ b))"
  by (simp add: fast_intersect_def Let_def np_sort_def np_concatenate_def scan_is_adjacent_dups)

lemma set_adjacent_dups_subset: "set (adjacent_dups xs) \<subseteq> set xs"
  by (induction xs rule: adjacent_dups.induct) auto

lemma sorted_adjacent_dups: "sorted xs \<Longrightarrow> sorted (adjacent_dups xs)"
proof (induction xs rule: adjacent_dups.induct)
  case (1 x y xs)
  have "set (adjacent_dups (y # xs)) \<subseteq> set (y # xs)"
    by (rule set_adjacent_dups_subset)
  with 1 show ?case by auto
qed simp_all

lemma set_adjacent_dups:
  "sorted xs \<Longrightarrow> set (adjacent_dups xs) = {x. 2 \<le> count (mset xs) x}"
proof (induction xs rule: adjacent_dups.induct)
  case (1 x y xs)
  from "1.prems" have sorted_tl: "sorted (y # xs)" and le: "x \<le> y"
    and above: "\<forall>z\<in>set xs. y \<le> z"
    by auto
  have IH: "set (adjacent_dups (y # xs)) = {z. 2 \<le> count (mset (y # xs)) z}"
    using 1 sorted_tl by (cases "y = x") auto
  show ?case
  proof (cases "y = x")
    case True
    then show ?thesis using IH by auto
  next
    case False
    with le have lt: "x < y" by simp
    then have "x \<notin> set xs" using above by auto
    with False have cx: "count (mset (y # xs)) x = 0" by (simp add: count_eq_zero_iff)
    have "(2 \<le> count (mset (x # y # xs)) z) = (2 \<le> count (mset (y # xs)) z)" for z
      using cx by (cases "z = x") simp_all
    with False IH show ?thesis by simp
  qed
qed simp_all

lemma distinct_adjacent_dups:
  "sorted xs \<Longrightarrow> \<forall>x. count (mset xs) x \<le> 2 \<Longrightarrow> distinct (adjacent_dups xs)"
proof (induction xs rule: adjacent_dups.induct)
  case (1 x y xs)
  from "1.prems" have sorted_tl: "sorted (y # xs)" and above: "\<forall>z\<in>set xs. y \<le> z"
    by auto
  have cnt_tl: "\<forall>z. count (mset (y # xs)) z \<le> 2"
  proof
    fix z
    have "count (mset (y # xs)) z \<le> count (mset (x # y # xs)) z" by simp
    also have "\<dots> \<le> 2" using "1.prems"(2) by blast
    finally show "count (mset (y # xs)) z \<le> 2" .
  qed
  have IH: "distinct (adjacent_dups (y # xs))"
    using 1 sorted_tl cnt_tl by (cases "y = x") auto
  show ?case
  proof (cases "y = x")
    case True
    have "count (mset (x # y # xs)) x \<le> 2" using "1.prems"(2) by blast
    with True have "count (mset xs) x = 0" by simp
    then have "count (mset (y # xs)) x < 2" using True by simp
    then have "x \<notin> set (adjacent_dups (y # xs))"
      using set_adjacent_dups [OF sorted_tl] by auto
    with True IH show ?thesis by simp
  next
    case False
    with IH show ?thesis by simp
  qed
qed simp_all

lemma count_two_distinct_lists:
  assumes "distinct a" "distinct b"
  shows "count (mset (sort (a @ b))) x = (if x \<in> set a then 1 else 0) + (if x \<in> set b then 1 else 0)"
  using assms by (simp add: distinct_count_atmost_1)

lemma bool_index_filter:
  "bool_index xs (map P xs) = filter P xs"
  by (induction xs) (simp_all add: bool_index_def)

lemma fast_intersect_distinct:
  assumes "distinct A" and "distinct B"
  shows "sorted (fast_intersect A B) \<and> distinct (fast_intersect A B) \<and>
    set (fast_intersect A B) = set A \<inter> set B"
proof -
  let ?aux = "sort (A @ B)"
  have cnt: "count (mset ?aux) x = (if x \<in> set A then 1 else 0) + (if x \<in> set B then 1 else 0)" for x
    using assms by (rule count_two_distinct_lists)
  have srt: "sorted (adjacent_dups ?aux)"
    by (rule sorted_adjacent_dups) simp
  have "\<forall>x. count (mset ?aux) x \<le> 2"
    using cnt by simp
  then have dst: "distinct (adjacent_dups ?aux)"
    by (intro distinct_adjacent_dups) simp_all
  have "set (adjacent_dups ?aux) = {x. 2 \<le> count (mset ?aux) x}"
    by (rule set_adjacent_dups) simp
  also have "\<dots> = set A \<inter> set B"
    using cnt by auto
  finally have "set (adjacent_dups ?aux) = set A \<inter> set B" .
  with srt dst show ?thesis
    by (simp add: fast_intersect_adjacent_dups)
qed

lemma fast_intersect_sorted_list_of_set:
  assumes "distinct A" and "distinct B"
  shows "fast_intersect A B = sorted_list_of_set (set A \<inter> set B)"
proof -
  from assms have *: "sorted (fast_intersect A B)" "distinct (fast_intersect A B)"
    "set (fast_intersect A B) = set A \<inter> set B"
    using fast_intersect_distinct by blast+
  have "sorted_list_of_set (set (fast_intersect A B)) = fast_intersect A B"
    using *(1,2) by (rule sorted_list_of_set.idem_if_sorted_distinct)
  with *(3) show ?thesis by simp
qed

lemma fast_intersect_mset:
  "mset (a @ b) = mset (a' @ b') \<Longrightarrow> fast_intersect a b = fast_intersect a' b'"
proof -
  assume "mset (a @ b) = mset (a' @ b')"
  then have "sort (a @ b) = sort (a' @ b')"
    by (intro properties_for_sort) simp_all
  then show ?thesis by (simp add: fast_intersect_adjacent_dups)
qed



text \<open>
  C8. For a sequence \<open>A\<close> free of duplicates, \<open>fast_intersect A A\<close> is \<open>A\<close> sorted in
  ascending order, which is the sorted list of the distinct values of \<open>A\<close>.
\<close>

theorem fast_intersect_self:
  assumes "distinct A"
  shows "fast_intersect A A = sort A \<and> fast_intersect A A = sort (remdups A)"
proof -
  have "fast_intersect A A = sorted_list_of_set (set A \<inter> set A)"
    using assms assms by (rule fast_intersect_sorted_list_of_set)
  also have "\<dots> = sort (remdups A)"
    by (simp add: sorted_list_of_set_sort_remdups)
  finally show ?thesis using assms by (simp add: distinct_remdups_id)
qed

theorem fast_intersect_self_witness:
  "distinct [7, 1, 5, 3 :: int] \<and> fast_intersect [7, 1, 5, 3] [7, 1, 5, 3] = [1, 3, 5, 7]"
  using fast_intersect_self [of "[7, 1, 5, 3]"] by simp

text \<open>
  C9. For all sequences \<open>a\<close> and \<open>b\<close>, with or without duplicates,
  \<open>fast_intersect a b = fast_intersect b a\<close>; more generally the result is the same
  for any two pairs of arguments whose concatenations hold the same values with the
  same multiplicities.
\<close>

theorem fast_intersect_commute:
  "fast_intersect a b = fast_intersect b a \<and>
   (mset (a @ b) = mset (a' @ b') \<longrightarrow> fast_intersect a b = fast_intersect a' b')"
  using fast_intersect_mset [of a b b a] fast_intersect_mset [of a b a' b'] by simp

theorem fast_intersect_commute_witness:
  "fast_intersect [2, 2, 1] [2, 3] = fast_intersect [2, 3] [2, 2, 1] \<and>
   mset ([2, 2, 1] @ [2, 3]) = mset ([3, 2] @ [2, 1, 2 :: int]) \<and>
   fast_intersect [2, 2, 1] [2, 3] = fast_intersect [3, 2] [2, 1, 2] \<and>
   fast_intersect [2, 2, 1] [2, 3] = [2, 2]"
  using fast_intersect_commute [of "[2, 2, 1]" "[2, 3]" "[3, 2]" "[2, 1, 2]"]
  by (simp add: fast_intersect_adjacent_dups)

subsection \<open>The sort-based algorithm of \<^verbatim>\<open>np.isin\<close>\<close>

lemma fold_put_other:
  "j \<notin> fst ` set ps \<Longrightarrow> fold (\<lambda>(j, f) r. r[j := f]) ps r ! j = r ! j"
  by (induction ps arbitrary: r) (auto simp: nth_list_update)

lemma length_fold_put:
  "length (fold (\<lambda>(j, f) r. r[j := f]) ps r) = length r"
  by (induction ps arbitrary: r) auto

lemma np_put_nth:
  assumes "distinct order" and "order = us @ j # vs" and "length order \<le> length flag"
    and "j < length ret"
  shows "np_put ret order flag ! j = flag ! length us"
proof -
  have z: "zip order flag = zip us (take (length us) flag) @
      (j, flag ! length us) # zip vs (drop (Suc (length us)) flag)"
  proof -
    have "flag = take (length us) flag @ flag ! length us # drop (Suc (length us)) flag"
      using assms(2,3) by (simp add: id_take_nth_drop)
    then have "zip order flag = zip (us @ j # vs)
        (take (length us) flag @ flag ! length us # drop (Suc (length us)) flag)"
      using assms(2) by simp
    also have "\<dots> = zip us (take (length us) flag) @
        (j, flag ! length us) # zip vs (drop (Suc (length us)) flag)"
      using assms(2,3) by (subst zip_append) simp_all
    finally show ?thesis .
  qed
  have "j \<notin> set vs" using assms(1,2) by simp
  then have notin: "j \<notin> fst ` set (zip vs (drop (Suc (length us)) flag))"
    by (auto dest: set_zip_leftD)
  let ?r1 = "fold (\<lambda>(j, f) r. r[j := f]) (zip us (take (length us) flag)) ret"
  have len: "length ?r1 = length ret"
    by (rule length_fold_put)
  show ?thesis
    unfolding np_put_def z using notin assms(4) len
    by (simp add: fold_put_other)
qed

lemma adjacent_equal_Cons:
  "np_equal (slice_from1 (x # y # zs)) (slice_to_last (x # y # zs)) =
     (y = x) # np_equal (slice_from1 (y # zs)) (slice_to_last (y # zs))"
  by (simp add: np_equal_def slice_from1_def slice_to_last_def)

lemma adjacent_equal_single:
  "np_equal (slice_from1 [x]) (slice_to_last [x]) = []"
  by (simp add: np_equal_def slice_from1_def slice_to_last_def)

lemma flag_nth:
  "(np_equal (slice_from1 (as @ a # bs)) (slice_to_last (as @ a # bs)) @ [False]) ! length as
    = (bs \<noteq> [] \<and> hd bs = a)"
proof (induction as)
  case Nil
  then show ?case
    by (cases bs) (simp_all add: adjacent_equal_Cons adjacent_equal_single)
next
  case (Cons c as)
  obtain y zs where yz: "as @ a # bs = y # zs" by (cases "as @ a # bs") simp_all
  have "(np_equal (slice_from1 (c # y # zs)) (slice_to_last (c # y # zs)) @ [False]) ! Suc (length as)
      = (np_equal (slice_from1 (y # zs)) (slice_to_last (y # zs)) @ [False]) ! length as"
    by (simp add: adjacent_equal_Cons)
  with Cons yz show ?case by simp
qed

lemma in1d_sort_distinct:
  assumes "distinct ar1"
  shows "in1d_sort ar1 ar2 = np_isin ar1 ar2"
proof -
  let ?ar = "ar1 @ ar2"
  let ?n = "length ?ar"
  let ?key = "\<lambda>j. ?ar ! j"
  let ?order = "sort_key ?key [0..<?n]"
  let ?sar = "map ?key ?order"
  let ?flag = "np_equal (slice_from1 ?sar) (slice_to_last ?sar) @ [False]"
  let ?ret = "np_put (replicate ?n False) ?order ?flag"
  have set_order: "set ?order = {0..<?n}" by simp
  have dist_order: "distinct ?order" by simp
  have srt: "sorted (map ?key ?order)" by (rule sorted_sort_key)
  have len_flag: "length ?order \<le> length ?flag"
    by (simp add: np_equal_def slice_from1_def slice_to_last_def)
  have len_ret: "length ?ret = ?n"
    by (simp add: np_put_def length_fold_put)
  have nth_ret: "?ret ! j = (ar1 ! j \<in> set ar2)" if j: "j < length ar1" for j
  proof -
    have kj: "?key j = ar1 ! j" using j by (simp add: nth_append)
    from j have "j \<in> set ?order" by simp
    then obtain us vs where split: "?order = us @ j # vs"
      by (meson split_list)
    have dist_split: "distinct (us @ j # vs)"
      using dist_order by (simp only: split)
    have srt_split: "sorted (map ?key (us @ j # vs))"
      using srt by (simp only: split)
    have mem_split: "set (us @ j # vs) = {0..<?n}"
      using set_order by (simp only: split)
    have "?ret ! j = ?flag ! length us"
      by (rule np_put_nth [OF dist_order split len_flag]) (use j in simp)
    also have "?flag ! length us = (map ?key vs \<noteq> [] \<and> hd (map ?key vs) = ?key j)"
      unfolding split using flag_nth [of "map ?key us" "?key j" "map ?key vs"] by simp
    also have "\<dots> = (ar1 ! j \<in> set ar2)"
    proof
      assume "map ?key vs \<noteq> [] \<and> hd (map ?key vs) = ?key j"
      then obtain j' vs' where vs: "vs = j' # vs'" and eq: "?key j' = ?key j"
        by (cases vs) auto
      have "j' \<in> set (us @ j # vs)" using vs by simp
      then have j'n: "j' < ?n" unfolding mem_split by simp
      have ne: "j' \<noteq> j" using dist_split vs by auto
      have "\<not> j' < length ar1"
      proof
        assume "j' < length ar1"
        then have "ar1 ! j' = ar1 ! j" using eq j by (simp add: nth_append)
        with assms \<open>j' < length ar1\<close> j have "j' = j" by (simp add: nth_eq_iff_index_eq)
        with ne show False by simp
      qed
      then have "?key j' = ar2 ! (j' - length ar1)" "j' - length ar1 < length ar2"
        using j'n by (simp_all add: nth_append)
      then have "?key j' \<in> set ar2" by simp
      with eq kj show "ar1 ! j \<in> set ar2" by simp
    next
      assume "ar1 ! j \<in> set ar2"
      then obtain i2 where i2: "i2 < length ar2" "ar2 ! i2 = ar1 ! j"
        by (auto simp: in_set_conv_nth)
      let ?j2 = "length ar1 + i2"
      have k2: "?key ?j2 = ?key j" using i2 kj by (simp add: nth_append)
      have lt: "j < ?j2" using j by simp
      have "?j2 \<in> {0..<?n}" using i2 by simp
      then have "?j2 \<in> set (us @ j # vs)" unfolding mem_split .
      then have "?j2 \<in> set us \<or> ?j2 \<in> set vs" using lt by auto
      moreover have "?j2 \<notin> set us"
      proof
        assume in_us: "?j2 \<in> set us"
        let ?P = "\<lambda>i. ?key i = ?key j"
        have "filter ?P ?order = filter ?P [0..<?n]" by (rule sort_key_stable)
        moreover have "sorted (filter ?P [0..<?n])" by (rule sorted_wrt_filter) simp
        ultimately have "sorted (filter ?P (us @ j # vs))" by (simp only: split)
        then have "sorted (filter ?P us @ j # filter ?P vs)" by simp
        then have "\<forall>u\<in>set (filter ?P us). u \<le> j" by (simp add: sorted_append)
        with in_us k2 have "?j2 \<le> j" by simp
        with lt show False by simp
      qed
      ultimately have in_vs: "?j2 \<in> set vs" by simp
      then obtain j' vs' where vs: "vs = j' # vs'" by (cases vs) auto
      from srt_split vs have s1: "sorted (map ?key (j # j' # vs'))"
        by (simp add: sorted_append)
      then have le1: "?key j \<le> ?key j'" by simp
      from s1 have "\<forall>v\<in>set vs'. ?key j' \<le> ?key v" by simp
      with in_vs vs have le2: "?key j' \<le> ?key ?j2" by auto
      from le1 le2 k2 have "?key j' = ?key j" by simp
      with vs show "map ?key vs \<noteq> [] \<and> hd (map ?key vs) = ?key j" by simp
    qed
    finally show ?thesis .
  qed
  have "take (length ar1) ?ret = map (\<lambda>x. x \<in> set ar2) ar1"
  proof (rule nth_equalityI)
    show "length (take (length ar1) ?ret) = length (map (\<lambda>x. x \<in> set ar2) ar1)"
      using len_ret by simp
  next
    fix i
    assume "i < length (take (length ar1) ?ret)"
    then have i: "i < length ar1" by simp
    then show "take (length ar1) ?ret ! i = map (\<lambda>x. x \<in> set ar2) ar1 ! i"
      using nth_ret [OF i] by simp
  qed
  then show ?thesis
    by (simp add: in1d_sort_def np_isin_def Let_def np_concatenate_def np_argsort_def np_take_def)
qed

subsection \<open>\<open>fast_setdiff\<close>\<close>

lemma fast_setdiff_filter: "fast_setdiff a b = filter (\<lambda>x. x \<notin> set b) a"
  by (simp add: fast_setdiff_def np_isin_def np_logical_not_def comp_def bool_index_filter)

text \<open>
  C3. For sequences \<open>A\<close> and \<open>B\<close>, each free of duplicates, \<open>fast_setdiff A B\<close> is
  the elements of \<open>A\<close> that do not occur in \<open>B\<close>, in the order they have in \<open>A\<close>.
  An empty \<open>A\<close> gives the empty result and an empty \<open>B\<close> gives \<open>A\<close>. The mask
  that selects the elements is the one NumPy's sort-based algorithm computes.
\<close>

theorem fast_setdiff_correct:
  assumes "distinct A" and "distinct B"
  shows "fast_setdiff A B = filter (\<lambda>x. x \<notin> set B) A \<and>
    fast_setdiff [] B = [] \<and> fast_setdiff A [] = A \<and>
    fast_setdiff A B = bool_index A (np_logical_not (in1d_sort A B))"
proof -
  have "fast_setdiff A B = bool_index A (np_logical_not (in1d_sort A B))"
    using in1d_sort_distinct [OF assms(1), of B] by (simp add: fast_setdiff_def)
  then show ?thesis
    by (simp add: fast_setdiff_filter)
qed

theorem fast_setdiff_correct_witness:
  "distinct [1, 3, 5, 7 :: int] \<and> distinct [3, 5 :: int] \<and>
   fast_setdiff [1, 3, 5, 7] [3, 5] = filter (\<lambda>x. x \<notin> set [3, 5]) [1, 3, 5, 7] \<and>
   fast_setdiff [1, 3, 5, 7] [3, 5] = [1, 7]"
  using fast_setdiff_correct [of "[1, 3, 5, 7]" "[3, 5]"] by simp

section \<open>Properties of the base conversion\<close>


lemma sint_word_of_int_64:
  "- (2 ^ 63) \<le> x \<Longrightarrow> x < 2 ^ 63 \<Longrightarrow> sint (word_of_int x :: int64) = x"
  by (simp add: sint_sbintrunc' signed_take_bit_int_eq_self)

lemma sint_bounds_64: "- (2 ^ 63) \<le> sint (w :: int64)" "sint (w :: int64) < 2 ^ 63"
  using sint_ge [of w] sint_lt [of w] by simp_all

lemma sdiv_nonneg: "0 \<le> a \<Longrightarrow> 0 < b \<Longrightarrow> a sdiv b = a div (b :: int)"
  by (simp add: signed_divide_int_def sgn_if)

lemma smod_nonneg: "0 \<le> a \<Longrightarrow> 0 < b \<Longrightarrow> a smod b = a mod (b :: int)"
  by (auto simp add: signed_modulo_int_def sgn_if)

lemma prod_list_pos: "\<forall>m\<in>set dims. 0 < m \<Longrightarrow> 0 < prod_list (dims :: int list)"
  by (induction dims) simp_all

lemma div_less_of_less_mult:
  fixes v m P :: int
  assumes "0 < m" "v < m * P"
  shows "v div m < P"
proof (rule ccontr)
  assume "\<not> v div m < P"
  then have "P \<le> v div m" by simp
  then have "m * P \<le> m * (v div m)" using assms(1) by (simp add: mult_left_mono)
  also have "\<dots> = v - v mod m" by (simp add: minus_mod_eq_mult_div)
  also have "\<dots> \<le> v" using assms(1) by simp
  finally show False using assms(2) by simp
qed

lemma overflow_multiply_list_pos:
  "0 < p \<Longrightarrow> \<forall>m\<in>set dims. 0 < m \<Longrightarrow> p * prod_list dims \<le> NPY_MAX_INTP \<Longrightarrow>
   overflow_multiply_list p dims = p * prod_list dims"
proof (induction dims arbitrary: p)
  case Nil
  then show ?case by simp
next
  case (Cons m dims)
  then have m: "0 < m" and pos: "0 < prod_list dims"
    by (simp_all add: prod_list_pos)
  have "p * m * 1 \<le> p * m * prod_list dims"
    using Cons.prems(1) m pos by (intro mult_left_mono) simp_all
  with Cons.prems(3) have le: "p * m \<le> NPY_MAX_INTP"
    by (simp add: mult.assoc)
  have "0 < p * m" using Cons.prems(1) m by simp
  then have no: "\<not> mul_overflow p m"
    using le by (simp add: mul_overflow_def NPY_MIN_INTP_def)
  have "overflow_multiply_list (p * m) dims = p * m * prod_list dims"
    using Cons.prems \<open>0 < p * m\<close> by (intro Cons.IH) (simp_all add: mult.assoc)
  with m no show ?case by (simp add: mult.assoc)
qed

lemma overflow_multiply_list_cases:
  "0 < p \<Longrightarrow> \<forall>m\<in>set dims. 0 < m \<Longrightarrow>
   overflow_multiply_list p dims = - 1 \<or> overflow_multiply_list p dims = p * prod_list dims"
proof (induction dims arbitrary: p)
  case Nil
  then show ?case by simp
next
  case (Cons m dims)
  then have m: "0 < m" by simp
  show ?case
  proof (cases "mul_overflow p m")
    case True
    with m show ?thesis by simp
  next
    case False
    have "0 < p * m" using Cons.prems(1) m by simp
    then have "overflow_multiply_list (p * m) dims = - 1 \<or>
        overflow_multiply_list (p * m) dims = p * m * prod_list dims"
      using Cons.prems by (intro Cons.IH) simp_all
    with m False show ?thesis by (simp add: mult.assoc)
  qed
qed

lemma ravel_strides_pos:
  "0 < s \<Longrightarrow> \<forall>m\<in>set dims. 0 < m \<Longrightarrow> s * prod_list dims \<le> NPY_MAX_INTP \<Longrightarrow>
   \<exists>strides. ravel_strides s dims = Some strides"
proof (induction dims arbitrary: s)
  case Nil
  then show ?case by simp
next
  case (Cons m dims)
  then have m: "0 < m" and pos: "0 < prod_list dims"
    by (simp_all add: prod_list_pos)
  have "s * m * 1 \<le> s * m * prod_list dims"
    using Cons.prems(1) m pos by (intro mult_left_mono) simp_all
  with Cons.prems(3) have le: "s * m \<le> NPY_MAX_INTP"
    by (simp add: mult.assoc)
  have sm: "0 < s * m" using Cons.prems(1) m by simp
  then have no: "\<not> mul_overflow s m"
    using le by (simp add: mul_overflow_def NPY_MIN_INTP_def)
  have "\<exists>strides. ravel_strides (s * m) dims = Some strides"
    using Cons.prems sm by (intro Cons.IH) (simp_all add: mult.assoc)
  with no show ?case by auto
qed

lemma length_unravel_coords: "length (unravel_coords v dims) = length dims"
  by (induction dims arbitrary: v) simp_all

lemma ravel_loop_unravel_coords:
  "\<forall>m\<in>set dims. 0 < m \<Longrightarrow> 0 \<le> v \<Longrightarrow> v < prod_list dims \<Longrightarrow>
   ravel_strides s dims = Some strides \<Longrightarrow>
   ravel_loop acc (zip (unravel_coords v dims) (zip dims strides)) = Some (acc + s * v)"
proof (induction dims arbitrary: v s strides acc)
  case Nil
  then show ?case by simp
next
  case (Cons m dims)
  then have m: "0 < m" and pos: "\<forall>m\<in>set dims. 0 < m" by simp_all
  from Cons.prems(4) obtain rest where
    rest: "ravel_strides (s * m) dims = Some rest" and strides: "strides = s # rest"
    by (auto split: if_splits)
  have v': "0 \<le> v div m" "v div m < prod_list dims"
    using Cons.prems(2,3) m by (simp_all add: pos_imp_zdiv_nonneg_iff div_less_of_less_mult)
  have j: "0 \<le> v mod m" "v mod m < m" using m by simp_all
  have "ravel_loop (acc + v mod m * s) (zip (unravel_coords (v div m) dims) (zip dims rest))
      = Some (acc + v mod m * s + s * m * (v div m))"
    using pos v' rest by (rule Cons.IH)
  moreover have "v mod m * s + s * m * (v div m) = s * v"
  proof -
    have "v mod m * s + s * m * (v div m) = s * (m * (v div m) + v mod m)"
      by (simp only: ring_distribs ac_simps)
    also have "\<dots> = s * v" by simp
    finally show ?thesis .
  qed
  moreover have "ravel_loop acc ((v mod m, m, s) # xs) = ravel_loop (acc + v mod m * s) xs" for xs
    using j by (simp add: not_less not_le)
  ultimately show ?case
    using m Cons.prems(2) by (simp add: strides sdiv_nonneg smod_nonneg add.assoc del: ravel_loop.simps)
qed

lemma unravel_coords_range:
  "\<forall>m\<in>set dims. 0 < m \<Longrightarrow> 0 \<le> v \<Longrightarrow> k < length dims \<Longrightarrow>
   0 \<le> unravel_coords v dims ! k \<and> unravel_coords v dims ! k < dims ! k"
proof (induction dims arbitrary: v k)
  case Nil
  then show ?case by simp
next
  case (Cons m dims)
  then have m: "0 < m" by simp
  show ?case
  proof (cases k)
    case 0
    with m Cons.prems(2) show ?thesis by (simp add: smod_nonneg)
  next
    case (Suc k')
    have "0 \<le> v div m" using Cons.prems(2) m by (simp add: pos_imp_zdiv_nonneg_iff)
    then have "0 \<le> unravel_coords (v div m) dims ! k' \<and> unravel_coords (v div m) dims ! k' < dims ! k'"
      using Cons.prems Suc by (intro Cons.IH) simp_all
    with Suc m Cons.prems(2) show ?thesis by (simp add: sdiv_nonneg)
  qed
qed

lemma integer2baseb_Some:
  assumes b: "1 \<le> sint b" and d: "1 \<le> d" "d \<le> NPY_MAXDIMS"
    and size: "sint b ^ d \<le> NPY_MAX_INTP"
    and rng: "\<forall>x\<in>set i. 0 \<le> sint x \<and> sint x < sint b ^ d"
  shows "integer2baseb i b (Some (int d)) = Inr (digit_matrix i b d)"
proof -
  have "overflow_multiply_list 1 (replicate d (sint b)) = 1 * prod_list (replicate d (sint b))"
    using b size by (intro overflow_multiply_list_pos) (simp_all add: prod_list_replicate)
  then have sz: "overflow_multiply_list 1 (replicate d (sint b)) = sint b ^ d"
    by (simp add: prod_list_replicate)
  have ne: "sint b ^ d \<noteq> - 1"
    using b by (metis less_minus_one_simps(1) not_le order_trans zero_le_one zero_le_power)
  have ok: "\<not> (\<exists>v\<in>set i. sint v < 0 \<or> sint b ^ d \<le> sint v)"
    using rng by (auto simp: not_le)
  have d0: "replicate d (sint b) \<noteq> []" "[0..<d] \<noteq> []" using d by auto
  show ?thesis
    using d ne ok d0
    by (simp add: integer2baseb_def np_full_def unravel_index_def intp_converter_def sz
        digit_matrix_def)
qed

lemma shape_digit_matrix:
  "1 \<le> d \<Longrightarrow> shape0 (digit_matrix i b d) = length i"
  "shape1 (digit_matrix i b d) = d"
  by (simp_all add: digit_matrix_def np_fliplr_def np_transpose_def np_array_def hd_map upt_conv_Cons)

lemma item_digit_matrix:
  "r < length i \<Longrightarrow> c < d \<Longrightarrow>
   item (digit_matrix i b d) r c =
     word_of_int (unravel_coords (sint (i ! r)) (replicate d (sint b)) ! (d - 1 - c))"
  by (simp add: digit_matrix_def np_fliplr_def np_transpose_def np_array_def)

lemma those_map_Some:
  "\<forall>x\<in>set xs. f x = Some (g x) \<Longrightarrow> those (map f xs) = Some (map g xs)"
  by (induction xs) simp_all

lemma those_map_None:
  "\<exists>x\<in>set xs. f x = None \<Longrightarrow> those (map f xs) = None"
  by (induction xs) (auto split: option.splits)

lemma baseb2integer_digit_matrix:
  assumes b: "1 \<le> sint b" and d: "1 \<le> d" "d < NPY_MAXARGS"
    and size: "sint b ^ d \<le> NPY_MAX_INTP"
    and rng: "\<forall>x\<in>set i. 0 \<le> sint x \<and> sint x < sint b ^ d"
  shows "baseb2integer (Array2 (digit_matrix i b d)) b = Inr i"
proof -
  let ?dims = "replicate d (sint b)"
  let ?M = "digit_matrix i b d"
  let ?mi = "np_transpose (np_fliplr ?M)"
  have pos: "\<forall>m\<in>set ?dims. 0 < m" using b by simp
  obtain strides where strides: "ravel_strides 1 ?dims = Some strides"
    using ravel_strides_pos [of 1 ?dims] pos size by (auto simp: prod_list_replicate)
  have col: "ravel_column ?mi ?dims strides k = Some (sint (i ! k))" if k: "k < length i" for k
  proof -
    have v: "0 \<le> sint (i ! k)" "sint (i ! k) < prod_list ?dims"
      using rng k by (simp_all add: prod_list_replicate)
    have "map (\<lambda>j. sint (item ?mi j k)) [0..<length ?dims] = unravel_coords (sint (i ! k)) ?dims"
    proof (rule nth_equalityI)
      show "length (map (\<lambda>j. sint (item ?mi j k)) [0..<length ?dims])
          = length (unravel_coords (sint (i ! k)) ?dims)"
        by (simp add: length_unravel_coords)
    next
      fix j
      assume "j < length (map (\<lambda>j. sint (item ?mi j k)) [0..<length ?dims])"
      then have j: "j < d" by simp
      then have dj: "d - 1 - (d - 1 - j) = j" by simp
      have c: "0 \<le> unravel_coords (sint (i ! k)) ?dims ! j \<and>
          unravel_coords (sint (i ! k)) ?dims ! j < ?dims ! j"
        using pos v(1) j by (intro unravel_coords_range) simp_all
      have "sint b < 2 ^ 63" using sint_bounds_64(2) [of b] .
      with c j have c': "- (2 ^ 63) \<le> unravel_coords (sint (i ! k)) ?dims ! j"
        "unravel_coords (sint (i ! k)) ?dims ! j < 2 ^ 63"
        by simp_all
      have "item ?mi j k = word_of_int (unravel_coords (sint (i ! k)) ?dims ! j)"
        using j k dj
        by (simp add: np_transpose_def np_fliplr_def shape_digit_matrix item_digit_matrix)
      then show "map (\<lambda>j. sint (item ?mi j k)) [0..<length ?dims] ! j
          = unravel_coords (sint (i ! k)) ?dims ! j"
        using j c' by (simp add: sint_word_of_int_64)
    qed
    moreover have "ravel_loop 0 (zip (unravel_coords (sint (i ! k)) ?dims) (zip ?dims strides))
        = Some (0 + 1 * sint (i ! k))"
      using pos v strides by (rule ravel_loop_unravel_coords)
    ultimately show ?thesis by (simp add: ravel_column_def)
  qed
  have shp: "shape0 ?mi = d" "shape1 ?mi = length i"
    using d(1) by (simp_all add: np_transpose_def np_fliplr_def shape_digit_matrix)
  have "those (map (ravel_column ?mi ?dims strides) [0..<length i])
      = Some (map (\<lambda>k. sint (i ! k)) [0..<length i])"
    by (rule those_map_Some) (simp add: col)
  moreover have "map word_of_int (map (\<lambda>k. sint (i ! k)) [0..<length i]) = i"
    by (rule nth_equalityI) simp_all
  moreover have "?dims \<noteq> []" using d(1) by auto
  ultimately have "ravel_multi_index ?mi (replicate d b) = Inr i"
    using d strides
    by (simp add: ravel_multi_index_def intp_converter_def shp NPY_MAXDIMS_def NPY_MAXARGS_def)
  then show ?thesis
    by (simp add: baseb2integer_def Let_def np_full_def shape_digit_matrix)
qed

lemmas eval_defs = integer2baseb_def baseb2integer_def np_full_def unravel_index_def
  ravel_multi_index_def ravel_column_def intp_converter_def NPY_MAXDIMS_def NPY_MAXARGS_def
  NPY_MAX_INTP_def NPY_MIN_INTP_def mul_overflow_def np_fliplr_def np_transpose_def np_array_def
  rows_of_def of_rows_def

text \<open>
  C1, as amended. For a base \<open>b \<ge> 2\<close> and a dimension \<open>d \<ge> 1\<close> within NumPy's
  limits (\<open>d\<close> below \<^verbatim>\<open>NPY_MAXARGS\<close> and \<open>b ^ d\<close> at most the largest
  \<^verbatim>\<open>npy_intp\<close>), and every array \<open>i\<close> of integers in \<open>[0, b ^ d - 1]\<close>,
  \<open>integer2baseb i b d\<close> returns a digit matrix, of one row of \<open>d\<close> digits per
  integer, and \<open>baseb2integer\<close> of that matrix and \<open>b\<close> returns \<open>i\<close>.
\<close>

theorem integer2baseb_baseb2integer_roundtrip:
  assumes "2 \<le> sint b" and "1 \<le> d" and "d < NPY_MAXARGS"
    and "sint b ^ d \<le> NPY_MAX_INTP"
    and "\<forall>x\<in>set i. 0 \<le> sint x \<and> sint x < sint b ^ d"
  shows "\<exists>M. integer2baseb i b (Some (int d)) = Inr M \<and>
    shape0 M = length i \<and> shape1 M = d \<and> baseb2integer (Array2 M) b = Inr i"
proof -
  have "integer2baseb i b (Some (int d)) = Inr (digit_matrix i b d)"
    using assms by (intro integer2baseb_Some) (simp_all add: NPY_MAXARGS_def NPY_MAXDIMS_def)
  moreover have "baseb2integer (Array2 (digit_matrix i b d)) b = Inr i"
    using assms by (intro baseb2integer_digit_matrix) simp_all
  moreover have "shape0 (digit_matrix i b d) = length i" "shape1 (digit_matrix i b d) = d"
    using assms(2) by (simp_all add: shape_digit_matrix)
  ultimately show ?thesis by blast
qed

theorem integer2baseb_baseb2integer_roundtrip_witness:
  "2 \<le> sint (2 :: int64) \<and> (1 :: nat) \<le> 3 \<and> 3 < NPY_MAXARGS \<and>
   sint (2 :: int64) ^ 3 \<le> NPY_MAX_INTP \<and>
   list_all (\<lambda>x. 0 \<le> sint x \<and> sint x < sint (2 :: int64) ^ 3) [5, 0, 7, 6 :: int64] \<and>
   (\<exists>M. integer2baseb [5, 0, 7, 6] 2 (Some 3) = Inr M \<and>
        shape0 M = length [5, 0, 7, 6 :: int64] \<and> shape1 M = 3 \<and>
        baseb2integer (Array2 M) 2 = Inr [5, 0, 7, 6])"
  using integer2baseb_baseb2integer_roundtrip [of 2 3 "[5, 0, 7, 6]"]
  by (simp add: NPY_MAXARGS_def NPY_MAX_INTP_def)

text \<open>
  C1 as stated fails: base 2 and dimension 64 satisfy \<open>b \<ge> 2\<close> and \<open>d \<ge> 1\<close>, and 0
  lies in \<open>[0, 2 ^ 64 - 1]\<close>, but \<^verbatim>\<open>np.unravel_index\<close> rejects the shape of 64
  twos, so \<open>integer2baseb\<close> raises and there is nothing to convert back.
\<close>

theorem integer2baseb_roundtrip_counterexample:
  "2 \<le> sint (2 :: int64) \<and> (1 :: nat) \<le> 64 \<and>
   0 \<le> sint (0 :: int64) \<and> sint (0 :: int64) < sint (2 :: int64) ^ 64 \<and>
   integer2baseb [0] 2 (Some 64) = Inl ValueError"
  by (simp add: eval_defs)

lemma unravel_coords_max:
  "1 \<le> b \<Longrightarrow> unravel_coords (b ^ d - 1) (replicate d b) = replicate d (b - 1)"
proof (induction d)
  case 0
  then show ?case by simp
next
  case (Suc d)
  have split: "b ^ Suc d - 1 = (b ^ d - 1) * b + (b - 1)"
    by (simp add: algebra_simps)
  have r: "0 \<le> b - 1" "b - 1 < b" using Suc.prems by simp_all
  have "1 \<le> b ^ Suc d"
    using Suc.prems by (rule one_le_power)
  then have nonneg: "0 \<le> b ^ Suc d - 1"
    by linarith
  have nz: "b \<noteq> 0" using Suc.prems by simp
  have dv: "(b ^ Suc d - 1) div b = b ^ d - 1"
    unfolding split by (simp only: div_mult_self3 [OF nz] div_pos_pos_trivial [OF r] add_0_right)
  have md: "(b ^ Suc d - 1) mod b = b - 1"
    unfolding split by (simp only: mod_mult_self3 mod_pos_pos_trivial [OF r])
  have "unravel_coords (b ^ Suc d - 1) (replicate (Suc d) b)
      = (b ^ Suc d - 1) mod b # unravel_coords ((b ^ Suc d - 1) div b) (replicate d b)"
    using nonneg Suc.prems by (simp add: sdiv_nonneg smod_nonneg del: power_Suc)
  with dv md Suc show ?case by (simp del: power_Suc)
qed

lemma rows_of_digit_matrix:
  "1 \<le> d \<Longrightarrow> rows_of (digit_matrix i b d) =
     map (\<lambda>v. map (\<lambda>c. word_of_int (unravel_coords (sint v) (replicate d (sint b)) ! (d - 1 - c))) [0..<d]) i"
  by (rule nth_equalityI)
     (simp_all add: rows_of_def shape_digit_matrix item_digit_matrix)

lemma integer2baseb_max:
  assumes b: "1 \<le> sint b" and d: "1 \<le> d" "d \<le> NPY_MAXDIMS"
    and size: "sint b ^ d \<le> NPY_MAX_INTP"
    and x: "sint x = sint b ^ d - 1"
  shows "\<exists>M. integer2baseb [x] b (Some (int d)) = Inr M \<and> rows_of M = [replicate d (b - 1)]"
proof -
  have pw: "1 \<le> sint b ^ d" using b by simp
  have "integer2baseb [x] b (Some (int d)) = Inr (digit_matrix [x] b d)"
    using b d size pw by (intro integer2baseb_Some) (simp_all add: x)
  moreover have "rows_of (digit_matrix [x] b d) = [replicate d (b - 1)]"
  proof -
    have "unravel_coords (sint x) (replicate d (sint b)) = replicate d (sint b - 1)"
      unfolding x using b by (rule unravel_coords_max)
    then have "rows_of (digit_matrix [x] b d) = [map (\<lambda>c. b - 1) [0..<d]]"
      using d by (simp add: rows_of_digit_matrix)
    then show ?thesis by (simp add: map_replicate_const)
  qed
  ultimately show ?thesis by blast
qed

lemma unravel_index_too_large:
  assumes "\<forall>m\<in>set shape. 0 < sint m"
    and "\<exists>x\<in>set i. prod_list (map sint shape) \<le> sint x"
  shows "unravel_index i shape = Inl ValueError"
proof (cases "NPY_MAXDIMS < length shape")
  case True
  then show ?thesis by (simp add: unravel_index_def intp_converter_def)
next
  case False
  have "overflow_multiply_list 1 (map sint shape) = - 1 \<or>
      overflow_multiply_list 1 (map sint shape) = 1 * prod_list (map sint shape)"
    using assms(1) by (intro overflow_multiply_list_cases) simp_all
  with False assms(2) show ?thesis
    by (auto simp add: unravel_index_def intp_converter_def Let_def)
qed

text \<open>
  C4, as amended. For a base \<open>b \<ge> 2\<close> and an explicit dimension \<open>d \<ge> 1\<close> within
  NumPy's limits (\<open>d\<close> at most \<^verbatim>\<open>NPY_MAXDIMS\<close> and \<open>b ^ d\<close> at most the largest
  \<^verbatim>\<open>npy_intp\<close>), \<open>integer2baseb\<close> of \<open>b ^ d - 1\<close> returns the one row of \<open>d\<close>
  digits \<open>b - 1\<close>. For every base \<open>b \<ge> 2\<close> and explicit dimension \<open>d \<ge> 1\<close>,
  \<open>integer2baseb\<close> of an array holding an integer \<open>\<ge> b ^ d\<close> raises
  \<^verbatim>\<open>ValueError\<close>.
\<close>

theorem integer2baseb_boundary:
  "(2 \<le> sint b \<and> 1 \<le> d \<and> d \<le> NPY_MAXDIMS \<and> sint b ^ d \<le> NPY_MAX_INTP \<longrightarrow>
      (\<exists>M. integer2baseb [word_of_int (sint b ^ d - 1)] b (Some (int d)) = Inr M \<and>
           rows_of M = [replicate d (b - 1)])) \<and>
   (2 \<le> sint b \<and> 1 \<le> d \<and> (\<exists>x\<in>set i. sint b ^ d \<le> sint x) \<longrightarrow>
      integer2baseb i b (Some (int d)) = Inl ValueError)"
proof (intro conjI impI)
  assume a: "2 \<le> sint b \<and> 1 \<le> d \<and> d \<le> NPY_MAXDIMS \<and> sint b ^ d \<le> NPY_MAX_INTP"
  have pw: "1 \<le> sint b ^ d" using a by simp
  have lo: "- (2 ^ 63) \<le> sint b ^ d - 1"
  proof -
    have "- (2 ^ 63) \<le> (0 :: int)" by simp
    also have "0 \<le> sint b ^ d - 1" using pw by linarith
    finally show ?thesis .
  qed
  have hi: "sint b ^ d - 1 < 2 ^ 63" using a by (simp add: NPY_MAX_INTP_def)
  have "sint (word_of_int (sint b ^ d - 1) :: int64) = sint b ^ d - 1"
    using lo hi by (rule sint_word_of_int_64)
  with a show "\<exists>M. integer2baseb [word_of_int (sint b ^ d - 1)] b (Some (int d)) = Inr M \<and>
      rows_of M = [replicate d (b - 1)]"
    by (intro integer2baseb_max) simp_all
next
  assume a: "2 \<le> sint b \<and> 1 \<le> d \<and> (\<exists>x\<in>set i. sint b ^ d \<le> sint x)"
  then have "unravel_index i (replicate d b) = Inl ValueError"
    by (intro unravel_index_too_large) (auto simp: prod_list_replicate)
  then show "integer2baseb i b (Some (int d)) = Inl ValueError"
    by (simp add: integer2baseb_def np_full_def)
qed

theorem integer2baseb_boundary_witness:
  "2 \<le> sint (3 :: int64) \<and> (1 :: nat) \<le> 2 \<and> 2 \<le> NPY_MAXDIMS \<and>
   sint (3 :: int64) ^ 2 \<le> NPY_MAX_INTP \<and>
   (\<exists>M. integer2baseb [8] 3 (Some 2) = Inr M \<and> rows_of M = [[2, 2]]) \<and>
   sint (3 :: int64) ^ 2 \<le> sint (9 :: int64) \<and>
   integer2baseb [4, 9] 3 (Some 2) = Inl ValueError"
  using integer2baseb_boundary [of 3 2 "[4, 9]"]
  by (simp add: NPY_MAXDIMS_def NPY_MAX_INTP_def numeral_2_eq_2)

text \<open>
  C4 as stated fails: with base 2 and dimension 63 the integer \<open>2 ^ 63 - 1\<close> is
  \<open>b ^ d - 1\<close>, but \<^verbatim>\<open>np.unravel_index\<close> rejects the shape of 63 twos and
  \<open>integer2baseb\<close> raises instead of returning 63 ones.
\<close>

theorem integer2baseb_boundary_counterexample:
  "2 \<le> sint (2 :: int64) \<and> (1 :: nat) \<le> 63 \<and>
   sint (9223372036854775807 :: int64) = sint (2 :: int64) ^ 63 - 1 \<and>
   integer2baseb [9223372036854775807] 2 (Some 63) = Inl ValueError"
  by (simp add: eval_defs)

lemma length_ravel_strides:
  "ravel_strides s dims = Some strides \<Longrightarrow> length strides = length dims"
  by (induction dims arbitrary: s strides) (auto split: if_splits)

lemma ravel_loop_None:
  "\<exists>t\<in>set l. fst t < 0 \<or> fst (snd t) \<le> fst t \<Longrightarrow> ravel_loop acc l = None"
proof (induction l arbitrary: acc)
  case Nil
  then show ?case by simp
next
  case (Cons t l)
  obtain j m s where t: "t = (j, m, s)" by (cases t)
  show ?case
  proof (cases "j < 0 \<or> m \<le> j")
    case True
    then show ?thesis by (simp add: t)
  next
    case False
    with Cons.prems have "\<exists>t\<in>set l. fst t < 0 \<or> fst (snd t) \<le> fst t"
      by (auto simp: t)
    then have "ravel_loop (acc + j * s) l = None" by (rule Cons.IH)
    with False show ?thesis by (simp add: t)
  qed
qed

lemma ravel_loop_Some:
  "\<forall>t\<in>set l. 0 \<le> fst t \<and> fst t < fst (snd t) \<Longrightarrow> \<exists>r. ravel_loop acc l = Some r"
  by (induction l arbitrary: acc) auto

lemma ravel_column_bad:
  assumes len: "length strides = length dims" and i: "i < length dims"
    and bad: "sint (item mi i k) < 0 \<or> dims ! i \<le> sint (item mi i k)"
  shows "ravel_column mi dims strides k = None"
proof -
  let ?l = "zip (map (\<lambda>i. sint (item mi i k)) [0..<length dims]) (zip dims strides)"
  have "?l ! i = (sint (item mi i k), dims ! i, strides ! i)"
    using len i by simp
  moreover have "i < length ?l" using len i by simp
  ultimately have "(sint (item mi i k), dims ! i, strides ! i) \<in> set ?l"
    by (metis nth_mem)
  with bad have "\<exists>t\<in>set ?l. fst t < 0 \<or> fst (snd t) \<le> fst t"
    by force
  then show ?thesis
    unfolding ravel_column_def by (rule ravel_loop_None)
qed

lemma ravel_column_good:
  assumes len: "length strides = length dims"
    and good: "\<forall>i<length dims. 0 \<le> sint (item mi i k) \<and> sint (item mi i k) < dims ! i"
  shows "\<exists>r. ravel_column mi dims strides k = Some r"
proof -
  let ?l = "zip (map (\<lambda>i. sint (item mi i k)) [0..<length dims]) (zip dims strides)"
  have "\<forall>t\<in>set ?l. 0 \<le> fst t \<and> fst t < fst (snd t)"
  proof
    fix t
    assume "t \<in> set ?l"
    then obtain i where i: "i < length ?l" and t: "t = ?l ! i"
      by (metis in_set_conv_nth)
    from i len have "i < length dims" by simp
    with t len good show "0 \<le> fst t \<and> fst t < fst (snd t)" by simp
  qed
  then show ?thesis
    unfolding ravel_column_def by (rule ravel_loop_Some)
qed

text \<open>The coordinate array \<open>baseb2integer\<close> hands to \<^verbatim>\<open>np.ravel_multi_index\<close>.\<close>

lemma baseb2integer_Array2:
  "baseb2integer (Array2 M) b =
     ravel_multi_index (np_transpose (np_fliplr M)) (replicate (shape1 M) b)"
  by (simp add: baseb2integer_def Let_def np_full_def np_fliplr_def)

lemma coordinate_array:
  "shape0 (np_transpose (np_fliplr M)) = shape1 M"
  "shape1 (np_transpose (np_fliplr M)) = shape0 M"
  "item (np_transpose (np_fliplr M)) i k = item M k (shape1 M - 1 - i)"
  by (simp_all add: np_transpose_def np_fliplr_def)

lemma baseb2integer_bad_digit:
  assumes r: "r < shape0 M" and c: "c < shape1 M"
    and bad: "sint (item M r c) < 0 \<or> sint b \<le> sint (item M r c)"
  shows "baseb2integer (Array2 M) b = Inl ValueError"
proof -
  let ?d = "shape1 M"
  let ?mi = "np_transpose (np_fliplr M)"
  let ?dims = "replicate ?d (sint b)"
  have col: "ravel_column ?mi ?dims strides r = None" if "length strides = length ?dims" for strides
  proof (rule ravel_column_bad [where i = "?d - 1 - c"])
    show "length strides = length ?dims" by (rule that)
    show "?d - 1 - c < length ?dims" using c by simp
    have "?d - 1 - (?d - 1 - c) = c" using c by simp
    with bad c show "sint (item ?mi (?d - 1 - c) r) < 0 \<or>
        ?dims ! (?d - 1 - c) \<le> sint (item ?mi (?d - 1 - c) r)"
      by (simp add: coordinate_array)
  qed
  have ne: "?dims \<noteq> []" using c by auto
  show ?thesis
  proof (cases "ravel_strides 1 ?dims")
    case None
    then show ?thesis
      by (simp add: baseb2integer_Array2 ravel_multi_index_def intp_converter_def)
  next
    case (Some strides)
    then have "ravel_column ?mi ?dims strides r = None"
      by (intro col length_ravel_strides)
    with r have "\<exists>k\<in>set [0..<shape0 M]. ravel_column ?mi ?dims strides k = None"
      by auto
    then have "those (map (ravel_column ?mi ?dims strides) [0..<shape0 M]) = None"
      by (rule those_map_None)
    with Some ne show ?thesis
      by (simp add: baseb2integer_Array2 ravel_multi_index_def intp_converter_def
          coordinate_array)
  qed
qed

lemma baseb2integer_good_digits:
  assumes b: "1 \<le> sint b" and d: "1 \<le> shape1 M" "shape1 M < NPY_MAXARGS"
    and size: "sint b ^ shape1 M \<le> NPY_MAX_INTP"
    and good: "\<forall>r < shape0 M. \<forall>c < shape1 M. 0 \<le> sint (item M r c) \<and> sint (item M r c) < sint b"
  shows "\<exists>xs. baseb2integer (Array2 M) b = Inr xs \<and> length xs = shape0 M"
proof -
  let ?d = "shape1 M"
  let ?mi = "np_transpose (np_fliplr M)"
  let ?dims = "replicate ?d (sint b)"
  have pos: "\<forall>m\<in>set ?dims. 0 < m" using b by simp
  obtain strides where strides: "ravel_strides 1 ?dims = Some strides"
    using ravel_strides_pos [of 1 ?dims] pos size by (auto simp: prod_list_replicate)
  then have len: "length strides = length ?dims" by (rule length_ravel_strides)
  have "\<exists>v. ravel_column ?mi ?dims strides k = Some v" if k: "k < shape0 M" for k
    using len
  proof (rule ravel_column_good)
    show "\<forall>i<length ?dims. 0 \<le> sint (item ?mi i k) \<and> sint (item ?mi i k) < ?dims ! i"
      using good k by (simp add: coordinate_array)
  qed
  then have "\<forall>k\<in>set [0..<shape0 M].
      ravel_column ?mi ?dims strides k = Some (the (ravel_column ?mi ?dims strides k))"
    by auto
  then have "those (map (ravel_column ?mi ?dims strides) [0..<shape0 M])
      = Some (map (\<lambda>k. the (ravel_column ?mi ?dims strides k)) [0..<shape0 M])"
    by (rule those_map_Some)
  moreover have "?dims \<noteq> []" using d(1) by auto
  ultimately have "ravel_multi_index ?mi (replicate ?d b) =
      Inr (map word_of_int (map (\<lambda>k. the (ravel_column ?mi ?dims strides k)) [0..<shape0 M]))"
    using d strides
    by (simp add: ravel_multi_index_def intp_converter_def coordinate_array
        NPY_MAXARGS_def NPY_MAXDIMS_def)
  then show ?thesis
    by (simp add: baseb2integer_Array2)
qed

text \<open>
  C5, as amended. For every base \<open>b \<ge> 2\<close>, \<open>baseb2integer\<close> of a digit matrix
  holding a digit outside \<open>[0, b - 1]\<close> raises \<^verbatim>\<open>ValueError\<close>. On a matrix of
  \<open>d \<ge> 1\<close> columns within NumPy's limits (\<open>d\<close> below \<^verbatim>\<open>NPY_MAXARGS\<close> and \<open>b ^ d\<close> at
  most the largest \<^verbatim>\<open>npy_intp\<close>) whose digits all lie in \<open>[0, b - 1]\<close> it
  returns, with one integer per row.
\<close>

theorem baseb2integer_digit_range:
  "(2 \<le> sint b \<and>
      (\<exists>r < shape0 M. \<exists>c < shape1 M. sint (item M r c) < 0 \<or> sint b \<le> sint (item M r c)) \<longrightarrow>
      baseb2integer (Array2 M) b = Inl ValueError) \<and>
   (2 \<le> sint b \<and> 1 \<le> shape1 M \<and> shape1 M < NPY_MAXARGS \<and>
      sint b ^ shape1 M \<le> NPY_MAX_INTP \<and>
      (\<forall>r < shape0 M. \<forall>c < shape1 M. 0 \<le> sint (item M r c) \<and> sint (item M r c) < sint b) \<longrightarrow>
      (\<exists>xs. baseb2integer (Array2 M) b = Inr xs \<and> length xs = shape0 M))"
proof (intro conjI impI)
  assume "2 \<le> sint b \<and>
    (\<exists>r < shape0 M. \<exists>c < shape1 M. sint (item M r c) < 0 \<or> sint b \<le> sint (item M r c))"
  then show "baseb2integer (Array2 M) b = Inl ValueError"
    using baseb2integer_bad_digit by blast
next
  assume "2 \<le> sint b \<and> 1 \<le> shape1 M \<and> shape1 M < NPY_MAXARGS \<and>
    sint b ^ shape1 M \<le> NPY_MAX_INTP \<and>
    (\<forall>r < shape0 M. \<forall>c < shape1 M. 0 \<le> sint (item M r c) \<and> sint (item M r c) < sint b)"
  then show "\<exists>xs. baseb2integer (Array2 M) b = Inr xs \<and> length xs = shape0 M"
    by (intro baseb2integer_good_digits) simp_all
qed

theorem baseb2integer_digit_range_witness:
  "2 \<le> sint (2 :: int64) \<and> (0 :: nat) < 2 \<and> (1 :: nat) < 3 \<and>
   sint (2 :: int64) \<le> sint (item (of_rows 3 [[1, 0, 1], [0, 2, 0]]) 1 1) \<and>
   baseb2integer (Array2 (of_rows 3 [[1, 0, 1], [0, 2, 0]])) 2 = Inl ValueError \<and>
   (3 :: nat) < NPY_MAXARGS \<and> sint (2 :: int64) ^ 3 \<le> NPY_MAX_INTP \<and>
   list_all (list_all (\<lambda>x. 0 \<le> sint x \<and> sint x < sint (2 :: int64)))
     (rows_of (of_rows 3 [[1, 0, 1], [1, 1, 0]])) \<and>
   (\<exists>xs. baseb2integer (Array2 (of_rows 3 [[1, 0, 1], [1, 1, 0]])) 2 = Inr xs \<and> length xs = 2)"
proof -
  let ?bad = "of_rows 3 [[1, 0, 1], [0, 2, 0 :: int64]]"
  let ?good = "of_rows 3 [[1, 0, 1], [1, 1, 0 :: int64]]"
  have bad: "\<exists>r < shape0 ?bad. \<exists>c < shape1 ?bad.
      sint (item ?bad r c) < 0 \<or> sint (2 :: int64) \<le> sint (item ?bad r c)"
    by (rule exI [of _ 1], simp add: of_rows_def, rule exI [of _ 1], simp)
  have good: "\<forall>r < shape0 ?good. \<forall>c < shape1 ?good.
      0 \<le> sint (item ?good r c) \<and> sint (item ?good r c) < sint (2 :: int64)"
    by (simp add: of_rows_def less_Suc_eq numeral_2_eq_2 numeral_3_eq_3)
  have 1: "baseb2integer (Array2 ?bad) 2 = Inl ValueError"
    using baseb2integer_digit_range [of 2 ?bad] bad by simp
  have hyp: "2 \<le> sint (2 :: int64) \<and> 1 \<le> shape1 ?good \<and> shape1 ?good < NPY_MAXARGS \<and>
      sint (2 :: int64) ^ shape1 ?good \<le> NPY_MAX_INTP \<and>
      (\<forall>r < shape0 ?good. \<forall>c < shape1 ?good.
         0 \<le> sint (item ?good r c) \<and> sint (item ?good r c) < sint (2 :: int64))"
    using good by (simp add: of_rows_def NPY_MAXARGS_def NPY_MAX_INTP_def)
  have "\<exists>xs. baseb2integer (Array2 ?good) 2 = Inr xs \<and> length xs = shape0 ?good"
    using baseb2integer_digit_range [of 2 ?good] hyp by blast
  then have 2: "\<exists>xs. baseb2integer (Array2 ?good) 2 = Inr xs \<and> length xs = 2"
    by (simp add: of_rows_def numeral_2_eq_2)
  have 3: "list_all (list_all (\<lambda>x. 0 \<le> sint x \<and> sint x < sint (2 :: int64))) (rows_of ?good)"
    by (simp add: of_rows_def rows_of_def upt_rec)
  show ?thesis
    using 1 2 3 by (simp add: of_rows_def NPY_MAXARGS_def NPY_MAX_INTP_def)
qed

text \<open>
  C5 as stated fails: every digit of the one-row matrix of 64 zeros lies in
  \<open>[0, 1]\<close>, but \<^verbatim>\<open>np.ravel_multi_index\<close> rejects the 64 dimensions and
  \<open>baseb2integer\<close> raises.
\<close>

theorem baseb2integer_digit_range_counterexample:
  "2 \<le> sint (2 :: int64) \<and>
   list_all (list_all (\<lambda>x. 0 \<le> sint x \<and> sint x < sint (2 :: int64)))
     (rows_of (of_rows 64 [replicate 64 0])) \<and>
   baseb2integer (Array2 (of_rows 64 [replicate 64 0])) 2 = Inl ValueError"
  by (simp add: eval_defs list_all_iff)







lemma fold_max_zeros:
  "\<forall>x\<in>set xs. x = (0 :: int64) \<Longrightarrow>
   fold (\<lambda>x m. if sint m < sint x then x else m) xs 0 = 0"
  by (induction xs) simp_all

lemma np_max_zeros: "i \<noteq> [] \<Longrightarrow> \<forall>x\<in>set i. x = 0 \<Longrightarrow> np_max i = 0"
  by (cases i) (simp_all add: np_max_def fold_max_zeros)

text \<open>
  C10. For every base \<open>b \<ge> 2\<close> and every non-empty array \<open>i\<close> of zeros, the default
  dimension is 0, not 1, and \<open>integer2baseb i b\<close> raises \<^verbatim>\<open>ValueError\<close> instead of
  returning rows of one zero digit.
\<close>

theorem default_dimension_of_zeros:
  assumes "2 \<le> sint b" and "i \<noteq> []" and "\<forall>x\<in>set i. x = 0"
  shows "derive_d i b = Inr 0 \<and> integer2baseb i b None = Inl ValueError"
proof -
  have "np_max i = 0" using assms(2,3) by (rule np_max_zeros)
  moreover have "1 < real_of_int (sint b)" using assms(1) by linarith
  then have "0 < ln (real_of_int (sint b))" by (rule ln_gt_zero)
  ultimately have d: "derive_d i b = Inr 0"
    using assms(1,2) by (simp add: derive_d_def np_log_def)
  have "unravel_index i [] = Inl ValueError"
    by (simp add: unravel_index_def intp_converter_def)
  with d show ?thesis
    by (simp add: integer2baseb_def np_full_def)
qed

theorem default_dimension_of_zeros_witness:
  "2 \<le> sint (10 :: int64) \<and> [0, 0 :: int64] \<noteq> [] \<and> list_all (\<lambda>x. x = 0) [0, 0 :: int64] \<and>
   derive_d [0, 0] 10 = Inr 0 \<and> integer2baseb [0, 0] 10 None = Inl ValueError"
  using default_dimension_of_zeros [of 10 "[0, 0]"] by simp

section \<open>The scenarios of the specification\<close>

text \<open>
  The four concrete scenarios the specification lists, evaluated on the model. In
  the third the default dimension is \<open>\<lceil>log\<^sub>2 6\<rceil> = 3\<close>; the quotient of the
  logarithms is far from an integer, so rounding does not change it.
\<close>

lemma scenario_fast_intersect: "fast_intersect [1, 3, 5, 7] [3, 4, 5] = [3, 5]"
  by (simp add: fast_intersect_adjacent_dups)

lemma scenario_fast_setdiff: "fast_setdiff [1, 3, 5, 7] [3, 5] = [1, 7]"
  by (simp add: fast_setdiff_filter)

lemma scenario_baseb2integer: "baseb2integer (Array2 (of_rows 3 [[1, 0, 1]])) 2 = Inr [5]"
  by (simp add: eval_defs upt_rec numeral_3_eq_3)

lemma scenario_integer2baseb_explicit:
  "map_sum id rows_of (integer2baseb [5] 2 (Some 3)) = Inr [[1, 0, 1]]"
  by (simp add: eval_defs signed_divide_int_def signed_modulo_int_def upt_rec numeral_3_eq_3)

lemma scenario_derive_d: "derive_d [5] 2 = Inr 3"
proof -
  have "\<lceil>log (real 2) (real 6)\<rceil> = int 2 + 1"
    by (rule ceiling_log_nat_eq_if) simp_all
  then have "\<lceil>ln 6 / ln (2 :: real)\<rceil> = 3"
    by (simp add: log_def)
  then show ?thesis
    by (simp add: derive_d_def np_max_def np_log_def)
qed

lemma scenario_integer2baseb:
  "map_sum id rows_of (integer2baseb [5] 2 None) = Inr [[1, 0, 1]]"
  using scenario_derive_d
  by (simp add: integer2baseb_def np_full_def unravel_index_def intp_converter_def
      NPY_MAXDIMS_def NPY_MAX_INTP_def NPY_MIN_INTP_def mul_overflow_def np_fliplr_def
      np_transpose_def np_array_def rows_of_def signed_divide_int_def signed_modulo_int_def
      upt_rec numeral_3_eq_3)

end
